theory Spec2Isabelle
  imports Main
begin

section \<open>Puzzle model (watersort/game.py)\<close>

text \<open>
  A tube is a Python tuple of one-letter colour strings whose last element is the top of
  the stack; a state is a tuple of tubes. Both are modelled as lists, in the same order.
\<close>

type_synonym color = string
type_synonym tube = "color list"
type_synonym state = "tube list"

datatype move = Move (src: int) (dst: int)

text \<open>
  The fields of \<open>WaterSortGame\<close> that the model reads. The random generator is used by
  state generation only and is left out.
\<close>

record game =
  num_tubes :: int
  num_colors :: int
  capacity :: int

text \<open>One constructor for every \<open>raise\<close> of the modelled code.\<close>

datatype error =
    TubesOutOfRange
  | ColorsOutOfRange
  | TooManyColors
  | MoveOutOfRange
  | SameTube
  | EmptySource
  | DestinationFull
  | ColorMismatch
  | KeyError

definition DEFAULT_COLORS :: "color list" where
  "DEFAULT_COLORS =
     [''R'', ''G'', ''B'', ''Y'', ''P'', ''C'', ''M'', ''O'', ''W'', ''K'', ''L'', ''N'']"

definition new_game :: "int \<Rightarrow> int \<Rightarrow> int \<Rightarrow> error + game" where
  "new_game nt nc cap =
     (if \<not> (5 \<le> nt \<and> nt \<le> 12) then Inl TubesOutOfRange
      else if \<not> (3 \<le> nc \<and> nc \<le> nt - 2) then Inl ColorsOutOfRange
      else if nc > int (length DEFAULT_COLORS) then Inl TooManyColors
      else Inr \<lparr>num_tubes = nt, num_colors = nc, capacity = cap\<rparr>)"

fun is_goal_state :: "game \<Rightarrow> state \<Rightarrow> bool" where
  "is_goal_state g [] = True"
| "is_goal_state g (t # ts) =
     (if t = [] then is_goal_state g ts
      else if int (length t) \<noteq> capacity g then False
      else if card (set t) \<noteq> 1 then False
      else is_goal_state g ts)"

fun tubes_within :: "game \<Rightarrow> state \<Rightarrow> bool" where
  "tubes_within g [] = True"
| "tubes_within g (t # ts) =
     (if int (length t) > capacity g then False else tubes_within g ts)"

definition is_valid_state :: "game \<Rightarrow> state \<Rightarrow> bool" where
  "is_valid_state g st =
     (if int (length st) \<noteq> num_tubes g then False else tubes_within g st)"

text \<open>
  The run length computed at the top of the outer loop of \<open>get_valid_moves\<close>: one for the
  top unit, plus the units directly below it that have the same colour.
\<close>

fun run_below :: "color \<Rightarrow> color list \<Rightarrow> nat" where
  "run_below top_color [] = 0"
| "run_below top_color (c # cs) =
     (if c = top_color then Suc (run_below top_color cs) else 0)"

definition run_length :: "tube \<Rightarrow> nat" where
  "run_length s = 1 + run_below (last s) (rev (butlast s))"

text \<open>
  The inner loop of \<open>get_valid_moves\<close> over the enumerated destinations. The branch for an
  empty destination and a source that is one single run is \<open>pass\<close> in the source, so the
  move is appended in that case as in every other.
\<close>

fun moves_from :: "game \<Rightarrow> nat \<Rightarrow> tube \<Rightarrow> (nat \<times> tube) list \<Rightarrow> move list" where
  "moves_from g src_idx s [] = []"
| "moves_from g src_idx s ((dst_idx, d) # rest) =
     (if src_idx = dst_idx then moves_from g src_idx s rest
      else if int (length d) = capacity g then moves_from g src_idx s rest
      else if d \<noteq> [] \<and> last d \<noteq> last s then moves_from g src_idx s rest
      else if d = [] \<and> run_length s = length s
        then Move (int src_idx) (int dst_idx) # moves_from g src_idx s rest
      else Move (int src_idx) (int dst_idx) # moves_from g src_idx s rest)"

fun moves_loop :: "game \<Rightarrow> state \<Rightarrow> (nat \<times> tube) list \<Rightarrow> move list" where
  "moves_loop g st [] = []"
| "moves_loop g st ((src_idx, s) # rest) =
     (if s = [] then moves_loop g st rest
      else moves_from g src_idx s (enumerate 0 st) @ moves_loop g st rest)"

definition get_valid_moves :: "game \<Rightarrow> state \<Rightarrow> move list" where
  "get_valid_moves g st = moves_loop g st (enumerate 0 st)"

text \<open>
  The \<open>while\<close> loop of \<open>apply_move\<close>: units are popped from the source and appended to the
  destination while the source is non-empty, its top has the poured colour and the
  destination has room.
\<close>

function pour :: "int \<Rightarrow> color \<Rightarrow> tube \<Rightarrow> tube \<Rightarrow> int \<Rightarrow> tube \<times> tube \<times> int" where
  "pour cap top_color s d poured =
     (if s \<noteq> [] \<and> last s = top_color \<and> int (length d) < cap
      then pour cap top_color (butlast s) (d @ [last s]) (poured + 1)
      else (s, d, poured))"
  by pat_completeness auto
termination
  by (relation "measure (\<lambda>(cap, top_color, s, d, poured). length s)") auto

declare pour.simps [simp del]

definition apply_move :: "game \<Rightarrow> state \<Rightarrow> move \<Rightarrow> error + (state \<times> int)" where
  "apply_move g st m =
     (if \<not> (0 \<le> src m \<and> src m < int (length st) \<and> 0 \<le> dst m \<and> dst m < int (length st))
        then Inl MoveOutOfRange
      else if src m = dst m then Inl SameTube
      else
        let s = st ! nat (src m); d = st ! nat (dst m) in
        if s = [] then Inl EmptySource
        else if int (length d) \<ge> capacity g then Inl DestinationFull
        else if d \<noteq> [] \<and> last d \<noteq> last s then Inl ColorMismatch
        else
          (case pour (capacity g) (last s) s d 0 of
             (s', d', poured) \<Rightarrow> Inr (st[nat (src m) := s', nat (dst m) := d'], poured)))"

text \<open>
  Applying a list of moves in order, as \<open>build_state_sequence\<close> of the command-line solver
  does; the first illegal move stops the replay with its error.
\<close>

fun replay :: "game \<Rightarrow> state \<Rightarrow> move list \<Rightarrow> error + state" where
  "replay g st [] = Inr st"
| "replay g st (m # ms) =
     (case apply_move g st m of
        Inl e \<Rightarrow> Inl e
      | Inr (st', poured) \<Rightarrow> replay g st' ms)"

definition color_units :: "state \<Rightarrow> color \<Rightarrow> nat" where
  "color_units st c = sum_list (map (\<lambda>t. count_list t c) st)"

subsection \<open>Legality and the effect of a pour, as the specification words them\<close>

definition legal :: "game \<Rightarrow> state \<Rightarrow> move \<Rightarrow> bool" where
  "legal g st m =
     (0 \<le> src m \<and> src m < int (length st) \<and> 0 \<le> dst m \<and> dst m < int (length st)
      \<and> src m \<noteq> dst m
      \<and> st ! nat (src m) \<noteq> []
      \<and> int (length (st ! nat (dst m))) < capacity g
      \<and> (st ! nat (dst m) = [] \<or> last (st ! nat (dst m)) = last (st ! nat (src m))))"

text \<open>
  The five violations for which move application fails, in the order the specification
  lists them.
\<close>

definition move_violation :: "game \<Rightarrow> state \<Rightarrow> move \<Rightarrow> bool" where
  "move_violation g st m =
     (\<not> (0 \<le> src m \<and> src m < int (length st) \<and> 0 \<le> dst m \<and> dst m < int (length st))
      \<or> src m = dst m
      \<or> st ! nat (src m) = []
      \<or> int (length (st ! nat (dst m))) = capacity g
      \<or> (st ! nat (dst m) \<noteq> [] \<and> last (st ! nat (dst m)) \<noteq> last (st ! nat (src m))))"

definition poured_units :: "game \<Rightarrow> state \<Rightarrow> move \<Rightarrow> nat" where
  "poured_units g st m =
     min (run_length (st ! nat (src m))) (nat (capacity g - int (length (st ! nat (dst m)))))"

definition poured_state :: "game \<Rightarrow> state \<Rightarrow> move \<Rightarrow> state" where
  "poured_state g st m =
     (let s = st ! nat (src m); d = st ! nat (dst m); k = poured_units g st m
      in st[nat (src m) := take (length s - k) s, nat (dst m) := d @ replicate k (last s)])"

definition move_less :: "move \<Rightarrow> move \<Rightarrow> bool" where
  "move_less a b = (src a < src b \<or> (src a = src b \<and> dst a < dst b))"

definition conserved :: "game \<Rightarrow> state \<Rightarrow> bool" where
  "conserved g st = list_all (\<lambda>c. int (color_units st c) = capacity g) (remdups (concat st))"

section \<open>Heuristics (watersort/heuristics.py)\<close>

text \<open>
  \<open>Counter(tube)\<close> and the \<open>defaultdict(list)\<close> of the entropy heuristic are dictionaries
  that are iterated, so they are association lists in insertion order.
\<close>

fun counter_add :: "color \<Rightarrow> (color \<times> int) list \<Rightarrow> (color \<times> int) list" where
  "counter_add c [] = [(c, 1)]"
| "counter_add c ((k, n) # rest) =
     (if k = c then (k, n + 1) # rest else (k, n) # counter_add c rest)"

definition Counter :: "tube \<Rightarrow> (color \<times> int) list" where
  "Counter t = foldl (\<lambda>counts c. counter_add c counts) [] t"

fun distribution_append ::
  "color \<Rightarrow> int \<Rightarrow> (color \<times> int list) list \<Rightarrow> (color \<times> int list) list" where
  "distribution_append c amount [] = [(c, [amount])]"
| "distribution_append c amount ((k, amounts) # rest) =
     (if k = c then (k, amounts @ [amount]) # rest
      else (k, amounts) # distribution_append c amount rest)"

definition color_distribution :: "state \<Rightarrow> (color \<times> int list) list" where
  "color_distribution st =
     foldl (\<lambda>dist t. foldl (\<lambda>dist' (c, amount). distribution_append c amount dist') dist (Counter t))
       [] st"

text \<open>
  The body of the second loop of the entropy heuristic for one colour; the first two
  equations are the \<open>continue\<close> for a colour held by at most one tube.
\<close>

fun color_penalty :: "int list \<Rightarrow> int" where
  "color_penalty [] = 0"
| "color_penalty [a] = 0"
| "color_penalty (a # b # rest) =
     (int (length (a # b # rest)) - 1) * (sum_list (a # b # rest) - foldl max a (b # rest))"

definition entropy_heuristic :: "state \<Rightarrow> int" where
  "entropy_heuristic st =
     foldl (\<lambda>penalty (c, amounts). penalty + color_penalty amounts) 0 (color_distribution st)"

fun streak_from :: "color \<Rightarrow> color list \<Rightarrow> int" where
  "streak_from base_color [] = 0"
| "streak_from base_color (c # cs) =
     (if c = base_color then 1 + streak_from base_color cs else 0)"

fun completion_loop :: "game \<Rightarrow> state \<Rightarrow> int \<Rightarrow> int \<Rightarrow> int \<times> int" where
  "completion_loop g [] tubes_incomplete colors_positioned = (tubes_incomplete, colors_positioned)"
| "completion_loop g (t # ts) tubes_incomplete colors_positioned =
     (case t of
        [] \<Rightarrow> completion_loop g ts tubes_incomplete colors_positioned
      | base_color # uppers \<Rightarrow>
          if int (length t) = capacity g \<and> card (set t) = 1
          then completion_loop g ts tubes_incomplete colors_positioned
          else completion_loop g ts (tubes_incomplete + 1)
                 (colors_positioned + (1 + streak_from base_color uppers)))"

definition completion_heuristic :: "game \<Rightarrow> state \<Rightarrow> int" where
  "completion_heuristic g st =
     (case completion_loop g st 0 0 of
        (tubes_incomplete, colors_positioned) \<Rightarrow> tubes_incomplete * capacity g - colors_positioned)"

text \<open>
  The inner loop of the blocking heuristic walks \<open>tube[:-1]\<close>; for the unit \<open>c\<close> the list
  \<open>uppers\<close> is the rest of the tube, and the last unit of the tube is not visited.
\<close>

fun blocked_in :: "color list \<Rightarrow> int" where
  "blocked_in [] = 0"
| "blocked_in (c # uppers) =
     (if uppers = [] then 0
      else (if list_ex (\<lambda>upper. upper \<noteq> c) uppers then 1 else 0) + blocked_in uppers)"

fun blocking_loop :: "state \<Rightarrow> int \<Rightarrow> int \<Rightarrow> int \<times> int" where
  "blocking_loop [] total_mixed blocked_units = (total_mixed, blocked_units)"
| "blocking_loop (t # ts) total_mixed blocked_units =
     (if t = [] then blocking_loop ts total_mixed blocked_units
      else blocking_loop ts
             (if card (set t) > 1 then total_mixed + int (length t) else total_mixed)
             (blocked_units + blocked_in t))"

definition blocking_heuristic :: "state \<Rightarrow> int" where
  "blocking_heuristic st =
     (case blocking_loop st 0 0 of
        (total_mixed, blocked_units) \<Rightarrow> total_mixed + 2 * blocked_units)"

subsection \<open>Auxiliary predicates of the proofs\<close>

definition amounts_nonneg :: "(color \<times> int list) list \<Rightarrow> bool" where
  "amounts_nonneg dist = (\<forall>(k, amounts) \<in> set dist. \<forall>a \<in> set amounts. 0 \<le> a)"

definition short_amounts :: "(color \<times> int list) list \<Rightarrow> bool" where
  "short_amounts dist = (\<forall>(k, amounts) \<in> set dist. length amounts \<le> 1)"


subsection \<open>Example instances\<close>

definition example_game :: game where
  "example_game = \<lparr>num_tubes = 5, num_colors = 3, capacity = 4\<rparr>"

definition example_state :: state where
  "example_state =
     [[''R'', ''G'', ''G''], [''G'', ''G''], [''R'', ''R'', ''R''], [''B'', ''B'', ''B'', ''B''], []]"

definition twin_state :: state where
  "twin_state =
     [[''R'', ''R'', ''R'', ''R''], [''R'', ''R'', ''R'', ''R''], [''G'', ''G'', ''G'', ''G''], [], []]"

definition solved_state :: state where
  "solved_state =
     [[''R'', ''R'', ''R'', ''R''], [''G'', ''G'', ''G'', ''G''], [''B'', ''B'', ''B'', ''B''], [], []]"

section \<open>Properties of the puzzle model\<close>

lemma run_below_rev_snoc:
  "run_below top_color (rev (xs @ [x])) = (if x = top_color then Suc (run_below top_color (rev xs)) else 0)"
  by simp

lemma pour_closed:
  "pour cap top_color s d poured =
     (let k = min (run_below top_color (rev s)) (nat (cap - int (length d)))
      in (take (length s - k) s, d @ replicate k top_color, poured + int k))"
proof (induction cap top_color s d poured rule: pour.induct)
  case (1 cap top_color s d poured)
  show ?case
  proof (cases "s \<noteq> [] \<and> last s = top_color \<and> int (length d) < cap")
    case True
    then obtain bs where s: "s = bs @ [top_color]"
      by (metis append_butlast_last_id)
    have r: "run_below top_color (rev s) = Suc (run_below top_color (rev bs))"
      by (simp add: s)
    have c: "nat (cap - int (length d)) = Suc (nat (cap - int (length (d @ [last s]))))"
      using True by (simp; linarith)
    have "pour cap top_color s d poured = pour cap top_color (butlast s) (d @ [last s]) (poured + 1)"
      using True by (subst pour.simps) simp
    also have "\<dots> = (let k = min (run_below top_color (rev (butlast s))) (nat (cap - int (length (d @ [last s]))))
      in (take (length (butlast s) - k) (butlast s), (d @ [last s]) @ replicate k top_color, poured + 1 + int k))"
      using 1 True by simp
    finally show ?thesis
      unfolding r c by (simp add: s Let_def replicate_app_Cons_same min_Suc_Suc)
  next
    case False
    then have p: "pour cap top_color s d poured = (s, d, poured)"
      by (subst pour.simps) auto
    from False have "min (run_below top_color (rev s)) (nat (cap - int (length d))) = 0"
      by (cases s rule: rev_cases) auto
    then show ?thesis by (simp add: p)
  qed
qed

lemma run_length_nonempty: "s \<noteq> [] \<Longrightarrow> run_length s = run_below (last s) (rev s)"
  by (cases s rule: rev_cases) (simp_all add: run_length_def)

lemma run_length_pos: "1 \<le> run_length s"
  by (simp add: run_length_def)

lemma apply_move_legal:
  "legal g st m \<Longrightarrow> apply_move g st m = Inr (poured_state g st m, int (poured_units g st m))"
  by (simp add: legal_def apply_move_def Let_def pour_closed poured_state_def poured_units_def
      run_length_nonempty)

lemma apply_move_illegal: "\<not> legal g st m \<Longrightarrow> \<exists>e. apply_move g st m = Inl e"
  by (auto simp add: legal_def apply_move_def Let_def)

lemma apply_move_Inr_iff:
  "apply_move g st m = Inr r \<longleftrightarrow> legal g st m \<and> r = (poured_state g st m, int (poured_units g st m))"
proof (cases "legal g st m")
  case True
  then show ?thesis using apply_move_legal [of g st m] by auto
next
  case False
  then show ?thesis using apply_move_illegal [of g st m] by auto
qed

lemma poured_units_pos: "legal g st m \<Longrightarrow> 1 \<le> poured_units g st m"
  using run_length_pos [of "st ! nat (src m)"] by (simp add: legal_def poured_units_def) linarith

lemma tubes_within_iff: "tubes_within g st \<longleftrightarrow> (\<forall>t \<in> set st. int (length t) \<le> capacity g)"
  by (induction st) auto

lemma is_valid_state_iff:
  "is_valid_state g st \<longleftrightarrow> int (length st) = num_tubes g \<and> (\<forall>t \<in> set st. int (length t) \<le> capacity g)"
  by (auto simp add: is_valid_state_def tubes_within_iff)

lemma moves_from_Cons:
  "moves_from g i s ((j, d) # rest) =
     (if i = j \<or> int (length d) = capacity g \<or> (d \<noteq> [] \<and> last d \<noteq> last s)
      then moves_from g i s rest
      else Move (int i) (int j) # moves_from g i s rest)"
  by simp

lemma moves_from_set:
  "set (moves_from g i s ds) =
     {Move (int i) (int j) | j d. (j, d) \<in> set ds \<and> i \<noteq> j \<and> int (length d) \<noteq> capacity g
        \<and> (d = [] \<or> last d = last s)}"
proof (induction ds)
  case Nil
  then show ?case by simp
next
  case (Cons p ds)
  obtain j d where p: "p = (j, d)" by (cases p)
  show ?case
    unfolding p moves_from_Cons using Cons by auto
qed

lemma moves_loop_set:
  "set (moves_loop g st ss) =
     {Move (int i) (int j) | i s j d. (i, s) \<in> set ss \<and> s \<noteq> [] \<and> (j, d) \<in> set (enumerate 0 st)
        \<and> i \<noteq> j \<and> int (length d) \<noteq> capacity g \<and> (d = [] \<or> last d = last s)}"
proof (induction g st ss rule: moves_loop.induct)
  case (1 g st)
  then show ?case by simp
next
  case (2 g st src_idx s rest)
  show ?case
  proof (cases "s = []")
    case True
    with 2 show ?thesis by auto
  next
    case False
    with 2 show ?thesis by (simp add: moves_from_set) blast
  qed
qed

lemma get_valid_moves_set:
  "set (get_valid_moves g st) =
     {Move (int i) (int j) | i j. i < length st \<and> j < length st \<and> i \<noteq> j \<and> st ! i \<noteq> []
        \<and> int (length (st ! j)) \<noteq> capacity g \<and> (st ! j = [] \<or> last (st ! j) = last (st ! i))}"
  unfolding get_valid_moves_def moves_loop_set
  by (auto simp add: in_set_enumerate_eq)

lemma get_valid_moves_legal:
  assumes "is_valid_state g st"
  shows "m \<in> set (get_valid_moves g st) \<longleftrightarrow> legal g st m"
proof
  assume "m \<in> set (get_valid_moves g st)"
  then obtain i j where m: "m = Move (int i) (int j)" and b: "i < length st" "j < length st" "i \<noteq> j"
    and p: "st ! i \<noteq> []" "int (length (st ! j)) \<noteq> capacity g" "st ! j = [] \<or> last (st ! j) = last (st ! i)"
    unfolding get_valid_moves_set by blast
  from assms b have "int (length (st ! j)) \<le> capacity g"
    by (simp add: is_valid_state_iff)
  with p have "int (length (st ! j)) < capacity g" by simp
  with m b p show "legal g st m" by (simp add: legal_def)
next
  assume l: "legal g st m"
  then have "m = Move (int (nat (src m))) (int (nat (dst m)))"
    by (cases m) (simp add: legal_def)
  moreover from l have "nat (src m) < length st" "nat (dst m) < length st" "nat (src m) \<noteq> nat (dst m)"
    by (auto simp add: legal_def)
  moreover from l have "st ! nat (src m) \<noteq> []" "int (length (st ! nat (dst m))) \<noteq> capacity g"
    "st ! nat (dst m) = [] \<or> last (st ! nat (dst m)) = last (st ! nat (src m))"
    by (auto simp add: legal_def)
  ultimately show "m \<in> set (get_valid_moves g st)"
    unfolding get_valid_moves_set by blast
qed

lemma moves_from_sorted:
  "sorted_wrt move_less (moves_from g i s (enumerate n ts)) \<and>
   (\<forall>m \<in> set (moves_from g i s (enumerate n ts)). src m = int i \<and> int n \<le> dst m)"
proof (induction ts arbitrary: n)
  case Nil
  then show ?case by simp
next
  case (Cons t ts)
  from Cons [of "Suc n"] show ?case
    by (auto simp add: move_less_def moves_from_Cons simp del: moves_from.simps)
qed

lemma moves_loop_sorted:
  "sorted_wrt move_less (moves_loop g st (enumerate n ts)) \<and>
   (\<forall>m \<in> set (moves_loop g st (enumerate n ts)). int n \<le> src m)"
proof (induction ts arbitrary: n)
  case Nil
  then show ?case by simp
next
  case (Cons t ts)
  from Cons [of "Suc n"] moves_from_sorted [of g n t 0 st] show ?case
    by (auto simp add: sorted_wrt_append) (auto simp add: move_less_def)
qed

lemma get_valid_moves_sorted: "sorted_wrt move_less (get_valid_moves g st)"
  unfolding get_valid_moves_def using moves_loop_sorted [of g st 0 st] by simp

lemma top_run_split:
  "k \<le> run_below top_color (rev s) \<Longrightarrow> take (length s - k) s @ replicate k top_color = s"
proof (induction s arbitrary: k rule: rev_induct)
  case Nil
  then show ?case by simp
next
  case (snoc x xs)
  show ?case
  proof (cases k)
    case 0
    then show ?thesis by simp
  next
    case (Suc k')
    with snoc.prems have x: "x = top_color" and k': "k' \<le> run_below top_color (rev xs)"
      by (auto split: if_splits)
    have "take (length xs - k') xs @ replicate (Suc k') top_color
        = (take (length xs - k') xs @ replicate k' top_color) @ [top_color]"
      by (simp add: replicate_append_same)
    with snoc.IH [OF k'] show ?thesis
      by (simp add: Suc x)
  qed
qed

lemma sum_list_map_update:
  "i < length xs \<Longrightarrow> sum_list (map f (xs[i := a])) + f (xs ! i) = sum_list (map f xs) + (f a :: nat)"
proof (induction xs arbitrary: i)
  case Nil
  then show ?case by simp
next
  case (Cons x xs)
  then show ?case by (cases i) auto
qed

lemma poured_units_le_run:
  "legal g st m \<Longrightarrow> poured_units g st m \<le> run_below (last (st ! nat (src m))) (rev (st ! nat (src m)))"
  by (simp add: poured_units_def legal_def run_length_nonempty)

lemma poured_state_units:
  assumes "legal g st m"
  shows "color_units (poured_state g st m) c = color_units st c"
proof -
  define i where "i = nat (src m)"
  define j where "j = nat (dst m)"
  define k where "k = poured_units g st m"
  define s where "s = st ! i"
  define d where "d = st ! j"
  define f where "f = (\<lambda>t :: tube. count_list t c)"
  from assms have ij: "i < length st" "j < length st" "i \<noteq> j"
    by (auto simp add: legal_def i_def j_def)
  have split: "take (length s - k) s @ replicate k (last s) = s"
    using poured_units_le_run [OF assms] top_run_split
    by (simp add: k_def s_def i_def)
  have "f s = f (take (length s - k) s @ replicate k (last s))"
    by (simp only: split)
  then have fs: "f s + f d = f (take (length s - k) s) + f (d @ replicate k (last s))"
    by (simp add: f_def)
  let ?st1 = "st[i := take (length s - k) s]"
  have ps: "poured_state g st m = ?st1[j := d @ replicate k (last s)]"
    by (simp add: poured_state_def Let_def i_def j_def k_def s_def d_def)
  have 1: "sum_list (map f ?st1) + f s = sum_list (map f st) + f (take (length s - k) s)"
    using sum_list_map_update [of i st f] ij by (simp add: s_def)
  have "?st1 ! j = d" using ij by (simp add: d_def)
  then have 2: "sum_list (map f (?st1[j := d @ replicate k (last s)])) + f d
      = sum_list (map f ?st1) + f (d @ replicate k (last s))"
    using sum_list_map_update [of j ?st1 f] ij by simp
  from 1 2 fs have "sum_list (map f (?st1[j := d @ replicate k (last s)])) = sum_list (map f st)"
    by linarith
  then show ?thesis
    by (simp add: color_units_def ps f_def)
qed

lemma poured_state_valid:
  assumes "legal g st m" and "is_valid_state g st"
  shows "is_valid_state g (poured_state g st m)"
proof -
  let ?s = "st ! nat (src m)" and ?d = "st ! nat (dst m)" and ?k = "poured_units g st m"
  have "?k \<le> nat (capacity g - int (length ?d))"
    by (simp add: poured_units_def)
  then have k: "int (length ?d) + int ?k \<le> capacity g"
    using assms(1) by (simp add: legal_def) linarith
  have "nat (src m) < length st" using assms(1) by (auto simp add: legal_def)
  then have s: "?s \<in> set st" by simp
  then have "int (length (take (length ?s - ?k) ?s)) \<le> capacity g"
    using assms(2) by (auto simp add: is_valid_state_iff)
  moreover have "int (length (?d @ replicate ?k (last ?s))) \<le> capacity g"
    using k by simp
  moreover have "set (poured_state g st m)
      \<subseteq> insert (?d @ replicate ?k (last ?s)) (insert (take (length ?s - ?k) ?s) (set st))"
    unfolding poured_state_def Let_def
    using set_update_subset_insert [of "st[nat (src m) := take (length ?s - ?k) ?s]" "nat (dst m)"]
      set_update_subset_insert [of st "nat (src m)"]
    by blast
  moreover have "length (poured_state g st m) = length st"
    by (simp add: poured_state_def Let_def)
  ultimately show ?thesis
    using assms(2) unfolding is_valid_state_iff by (simp only:) blast
qed

lemma apply_move_preserves:
  assumes "is_valid_state g st" and "apply_move g st m = Inr (st', n)"
  shows "is_valid_state g st' \<and> (\<forall>c. color_units st' c = color_units st c)"
  using assms poured_state_valid [of g st m] poured_state_units [of g st m]
  by (simp add: apply_move_Inr_iff)

lemma replay_preserves:
  "is_valid_state g st \<Longrightarrow> replay g st ms = Inr st'
    \<Longrightarrow> is_valid_state g st' \<and> (\<forall>c. color_units st' c = color_units st c)"
proof (induction ms arbitrary: st)
  case Nil
  then show ?case by simp
next
  case (Cons m ms)
  from Cons.prems(2) obtain st1 n where a: "apply_move g st m = Inr (st1, n)"
    and r: "replay g st1 ms = Inr st'"
    by (auto split: sum.splits)
  from apply_move_preserves [OF Cons.prems(1) a] Cons.IH [OF _ r] show ?case
    by simp
qed

section \<open>Properties of the heuristics\<close>

subsection \<open>non-negativity\<close>

lemma counter_add_pos:
  "\<forall>(k, n) \<in> set counts. 1 \<le> n \<Longrightarrow> \<forall>(k, n) \<in> set (counter_add c counts). 1 \<le> n"
  by (induction c counts rule: counter_add.induct) auto

lemma foldl_counter_add_pos:
  "\<forall>(k, n) \<in> set counts. 1 \<le> n
    \<Longrightarrow> \<forall>(k, n) \<in> set (foldl (\<lambda>counts c. counter_add c counts) counts t). 1 \<le> n"
proof (induction t arbitrary: counts)
  case Nil
  then show ?case by simp
next
  case (Cons c t)
  from Cons.IH [OF counter_add_pos [OF Cons.prems]] show ?case by simp
qed

lemma Counter_pos: "\<forall>(k, n) \<in> set (Counter t). 1 \<le> n"
  unfolding Counter_def by (rule foldl_counter_add_pos) simp

lemma distribution_append_nonneg:
  "amounts_nonneg dist \<Longrightarrow> 0 \<le> amount \<Longrightarrow> amounts_nonneg (distribution_append c amount dist)"
  unfolding amounts_nonneg_def
  by (induction c amount dist rule: distribution_append.induct) auto

lemma foldl_distribution_nonneg:
  "amounts_nonneg dist \<Longrightarrow> \<forall>(k, n) \<in> set es. 0 \<le> n
    \<Longrightarrow> amounts_nonneg (foldl (\<lambda>dist' (c, amount). distribution_append c amount dist') dist es)"
proof (induction es arbitrary: dist)
  case Nil
  then show ?case by simp
next
  case (Cons e es)
  obtain c a where e: "e = (c, a)" by (cases e)
  from Cons.prems have "amounts_nonneg (distribution_append c a dist)"
    by (simp add: e distribution_append_nonneg)
  from Cons.IH [OF this] Cons.prems(2) show ?case by (simp add: e)
qed

lemma foldl_tubes_nonneg:
  "amounts_nonneg dist \<Longrightarrow>
   amounts_nonneg (foldl (\<lambda>dist t. foldl (\<lambda>dist' (c, amount). distribution_append c amount dist') dist (Counter t)) dist st)"
proof (induction st arbitrary: dist)
  case Nil
  then show ?case by simp
next
  case (Cons t st)
  have "\<forall>(k, n) \<in> set (Counter t). 0 \<le> n"
    using Counter_pos [of t] by fastforce
  from Cons.IH [OF foldl_distribution_nonneg [OF Cons.prems this]] show ?case by simp
qed

lemma color_distribution_nonneg: "amounts_nonneg (color_distribution st)"
  unfolding color_distribution_def by (rule foldl_tubes_nonneg) (simp add: amounts_nonneg_def)

lemma foldl_max_le_sum:
  "\<forall>x \<in> set xs. (0::int) \<le> x \<Longrightarrow> 0 \<le> a \<Longrightarrow> foldl max a xs \<le> a + sum_list xs"
proof (induction xs arbitrary: a)
  case Nil
  then show ?case by simp
next
  case (Cons x xs)
  from Cons.prems have "foldl max (max a x) xs \<le> max a x + sum_list xs"
    by (intro Cons.IH) auto
  moreover have "max a x \<le> a + x" using Cons.prems by simp
  ultimately have "foldl max (max a x) xs \<le> a + x + sum_list xs" by linarith
  then show ?case by simp
qed

lemma color_penalty_nonneg: "\<forall>a \<in> set amounts. 0 \<le> a \<Longrightarrow> 0 \<le> color_penalty amounts"
proof (cases amounts rule: color_penalty.cases)
  case (3 a b rest)
  assume h: "\<forall>a \<in> set amounts. 0 \<le> a"
  with 3 have "foldl max a (b # rest) \<le> a + sum_list (b # rest)"
    by (intro foldl_max_le_sum) auto
  then show ?thesis by (simp add: 3)
qed simp_all

lemma foldl_penalty_nonneg:
  "amounts_nonneg dist \<Longrightarrow> 0 \<le> p
    \<Longrightarrow> 0 \<le> foldl (\<lambda>penalty (c, amounts). penalty + color_penalty amounts) p dist"
proof (induction dist arbitrary: p)
  case Nil
  then show ?case by simp
next
  case (Cons e dist)
  obtain c amounts where e: "e = (c, amounts)" by (cases e)
  from Cons.prems have "0 \<le> color_penalty amounts"
    by (intro color_penalty_nonneg) (auto simp add: e amounts_nonneg_def)
  with Cons.prems have "0 \<le> p + color_penalty amounts" by simp
  moreover from Cons.prems have "amounts_nonneg dist" by (simp add: amounts_nonneg_def)
  ultimately show ?case using Cons.IH by (simp add: e)
qed

lemma entropy_nonneg: "0 \<le> entropy_heuristic st"
  unfolding entropy_heuristic_def
  by (rule foldl_penalty_nonneg [OF color_distribution_nonneg]) simp

lemma streak_from_le: "streak_from b cs \<le> int (length cs)"
  by (induction cs) auto

lemma completion_loop_nonneg:
  "tubes_within g st \<Longrightarrow> completion_loop g st ti cp = (ti', cp')
    \<Longrightarrow> cp \<le> ti * capacity g \<Longrightarrow> cp' \<le> ti' * capacity g"
proof (induction st arbitrary: ti cp)
  case Nil
  then show ?case by simp
next
  case (Cons t st)
  from Cons.prems(1) have tw: "tubes_within g st" and len: "int (length t) \<le> capacity g"
    by (auto split: if_splits)
  show ?case
  proof (cases t)
    case Nil
    with Cons.prems Cons.IH [OF tw] show ?thesis by simp
  next
    case (Cons b uppers)
    show ?thesis
    proof (cases "int (length t) = capacity g \<and> card (set t) = 1")
      case True
      with Cons.prems Cons.IH [OF tw] Cons show ?thesis by simp
    next
      case False
      have "1 + streak_from b uppers \<le> capacity g"
        using streak_from_le [of b uppers] len Cons by simp
      with Cons.prems(3) have "cp + (1 + streak_from b uppers) \<le> (ti + 1) * capacity g"
        by (simp add: algebra_simps)
      moreover from False Cons Cons.prems(2)
      have "completion_loop g st (ti + 1) (cp + (1 + streak_from b uppers)) = (ti', cp')"
        by auto
      ultimately show ?thesis using Cons.IH [OF tw] by blast
    qed
  qed
qed

lemma completion_nonneg: "is_valid_state g st \<Longrightarrow> 0 \<le> completion_heuristic g st"
proof -
  assume "is_valid_state g st"
  then have tw: "tubes_within g st" by (simp add: is_valid_state_def split: if_splits)
  obtain ti cp where l: "completion_loop g st 0 0 = (ti, cp)" by (cases "completion_loop g st 0 0")
  from completion_loop_nonneg [OF tw l] show ?thesis
    by (simp add: completion_heuristic_def l)
qed

lemma blocked_in_nonneg: "0 \<le> blocked_in t"
  by (induction t) auto

lemma blocking_loop_nonneg:
  "blocking_loop st tm bu = (tm', bu') \<Longrightarrow> 0 \<le> tm \<Longrightarrow> 0 \<le> bu \<Longrightarrow> 0 \<le> tm' \<and> 0 \<le> bu'"
proof (induction st arbitrary: tm bu)
  case Nil
  then show ?case by simp
next
  case (Cons t st)
  show ?case
  proof (cases "t = []")
    case True
    with Cons show ?thesis by simp
  next
    case False
    with Cons.prems have
      "blocking_loop st (if card (set t) > 1 then tm + int (length t) else tm) (bu + blocked_in t) = (tm', bu')"
      by simp
    moreover have "0 \<le> (if card (set t) > 1 then tm + int (length t) else tm)"
      using Cons.prems by simp
    moreover have "0 \<le> bu + blocked_in t"
      using Cons.prems blocked_in_nonneg [of t] by simp
    ultimately show ?thesis by (rule Cons.IH)
  qed
qed

lemma blocking_nonneg: "0 \<le> blocking_heuristic st"
proof -
  obtain tm bu where l: "blocking_loop st 0 0 = (tm, bu)" by (cases "blocking_loop st 0 0")
  from blocking_loop_nonneg [OF l] show ?thesis
    by (simp add: blocking_heuristic_def l)
qed

subsection \<open>goal states\<close>

lemma is_goal_state_iff:
  "is_goal_state g st \<longleftrightarrow>
     (\<forall>t \<in> set st. t = [] \<or> (int (length t) = capacity g \<and> card (set t) = 1))"
  by (induction st) auto

lemma single_color_tube:
  assumes "card (set t) = 1"
  obtains c n where "t = replicate (Suc n) c"
proof -
  from assms obtain c where c: "set t = {c}" by (rule card_1_singletonE)
  then have "t = replicate (length t) c"
    by (metis replicate_eqI singletonD)
  moreover from c have "t \<noteq> []" by auto
  ultimately show ?thesis using that [of "length t - 1" c]
    by (cases "length t") auto
qed

lemma foldl_counter_add_same:
  "foldl (\<lambda>counts c. counter_add c counts) [(c, k)] (replicate n c) = [(c, k + int n)]"
  by (induction n arbitrary: k) (simp_all add: algebra_simps)

lemma Counter_replicate: "Counter (replicate (Suc n) c) = [(c, 1 + int n)]"
  by (simp add: Counter_def foldl_counter_add_same)

lemma distribution_append_fresh:
  "c \<notin> fst ` set dist \<Longrightarrow> distribution_append c a dist = dist @ [(c, [a])]"
  by (induction c a dist rule: distribution_append.induct) auto

lemma goal_distribution_short:
  "is_goal_state g st \<Longrightarrow> distinct (concat (map remdups st))
    \<Longrightarrow> set (concat st) \<inter> fst ` set dist = {} \<Longrightarrow> short_amounts dist
    \<Longrightarrow> short_amounts (foldl (\<lambda>dist t. foldl (\<lambda>dist' (c, amount). distribution_append c amount dist') dist (Counter t)) dist st)"
proof (induction st arbitrary: dist)
  case Nil
  then show ?case by simp
next
  case (Cons t st)
  from Cons.prems(1) have goal: "is_goal_state g st"
    by (auto simp add: is_goal_state_iff)
  from Cons.prems(2) have dis: "distinct (concat (map remdups st))" by simp
  show ?case
  proof (cases "t = []")
    case True
    with Cons.prems Cons.IH [OF goal dis, of dist] show ?thesis
      by (simp add: Counter_def)
  next
    case False
    with Cons.prems(1) have "card (set t) = 1" by (auto split: if_splits)
    then obtain c n where t: "t = replicate (Suc n) c" by (rule single_color_tube)
    from Cons.prems(3) have fresh: "c \<notin> fst ` set dist" by (auto simp add: t)
    let ?dist = "dist @ [(c, [1 + int n])]"
    have step: "foldl (\<lambda>dist' (c, amount). distribution_append c amount dist') dist (Counter t) = ?dist"
      by (simp add: t Counter_replicate distribution_append_fresh [OF fresh] del: replicate_Suc)
    have "c \<notin> set (concat st)"
      using Cons.prems(2) by (auto simp add: t)
    with Cons.prems(3) have "set (concat st) \<inter> fst ` set ?dist = {}" by auto
    moreover from Cons.prems(4) have "short_amounts ?dist" by (simp add: short_amounts_def)
    ultimately have "short_amounts (foldl (\<lambda>dist t. foldl (\<lambda>dist' (c, amount). distribution_append c amount dist') dist (Counter t)) ?dist st)"
      by (rule Cons.IH [OF goal dis])
    then show ?thesis by (simp add: step)
  qed
qed

lemma color_penalty_short: "length amounts \<le> 1 \<Longrightarrow> color_penalty amounts = 0"
  by (cases amounts rule: color_penalty.cases) simp_all

lemma foldl_penalty_short:
  "short_amounts dist \<Longrightarrow> foldl (\<lambda>penalty (c, amounts). penalty + color_penalty amounts) p dist = p"
proof (induction dist arbitrary: p)
  case Nil
  then show ?case by simp
next
  case (Cons e dist)
  obtain c amounts where e: "e = (c, amounts)" by (cases e)
  from Cons.prems have "color_penalty amounts = 0" and "short_amounts dist"
    by (auto simp add: e short_amounts_def color_penalty_short)
  with Cons.IH show ?case by (simp add: e)
qed

lemma entropy_goal_apart:
  "is_goal_state g st \<Longrightarrow> distinct (concat (map remdups st)) \<Longrightarrow> entropy_heuristic st = 0"
  unfolding entropy_heuristic_def color_distribution_def
  by (rule foldl_penalty_short, rule goal_distribution_short) (simp_all add: short_amounts_def)

lemma color_units_Cons: "color_units (t # st) c = count_list t c + color_units st c"
  by (simp add: color_units_def)

lemma color_units_pos: "c \<in> set (concat st) \<Longrightarrow> 1 \<le> color_units st c"
proof (induction st)
  case Nil
  then show ?case by simp
next
  case (Cons t st)
  show ?case
  proof (cases "c \<in> set t")
    case True
    then have "count_list t c \<noteq> 0" by (simp add: count_list_0_iff)
    then show ?thesis by (simp add: color_units_Cons)
  next
    case False
    with Cons.prems have "c \<in> set (concat st)" by simp
    from Cons.IH [OF this] show ?thesis by (simp add: color_units_Cons)
  qed
qed

lemma count_list_same: "count_list (replicate n c) c = n"
  by (induction n) simp_all

lemma goal_units_bound_apart:
  "is_goal_state g st \<Longrightarrow> \<forall>c \<in> set (concat st). int (color_units st c) \<le> capacity g
    \<Longrightarrow> distinct (concat (map remdups st))"
proof (induction st)
  case Nil
  then show ?case by simp
next
  case (Cons t st)
  from Cons.prems(1) have goal: "is_goal_state g st"
    by (auto simp add: is_goal_state_iff)
  have "\<forall>c \<in> set (concat st). int (color_units st c) \<le> capacity g"
  proof
    fix c assume "c \<in> set (concat st)"
    then have "int (color_units (t # st) c) \<le> capacity g" using Cons.prems(2) by simp
    then show "int (color_units st c) \<le> capacity g" by (simp add: color_units_Cons)
  qed
  with Cons.IH goal have dis: "distinct (concat (map remdups st))" by blast
  show ?case
  proof (cases "t = []")
    case True
    with dis show ?thesis by simp
  next
    case False
    with Cons.prems(1) have full: "int (length t) = capacity g" and "card (set t) = 1"
      by (auto split: if_splits)
    then obtain c n where t: "t = replicate (Suc n) c" using single_color_tube by blast
    have "c \<notin> set (concat st)"
    proof
      assume "c \<in> set (concat st)"
      then have "1 \<le> color_units st c" by (rule color_units_pos)
      moreover have "count_list t c = length t" by (simp add: t count_list_same del: replicate_Suc)
      moreover have "int (color_units (t # st) c) \<le> capacity g"
        using Cons.prems(2) by (simp add: t)
      ultimately show False using full by (simp add: color_units_Cons)
    qed
    with dis show ?thesis by (auto simp add: t)
  qed
qed

lemma conserved_iff: "conserved g st \<longleftrightarrow> (\<forall>c \<in> set (concat st). int (color_units st c) = capacity g)"
  by (simp add: conserved_def list_all_iff)

lemma entropy_goal: "is_goal_state g st \<Longrightarrow> conserved g st \<Longrightarrow> entropy_heuristic st = 0"
proof -
  assume goal: "is_goal_state g st" and "conserved g st"
  then have "\<forall>c \<in> set (concat st). int (color_units st c) \<le> capacity g"
    unfolding conserved_iff by (metis order_refl)
  from entropy_goal_apart [OF goal goal_units_bound_apart [OF goal this]] show ?thesis .
qed

lemma completion_loop_goal: "is_goal_state g st \<Longrightarrow> completion_loop g st ti cp = (ti, cp)"
proof (induction st)
  case Nil
  then show ?case by simp
next
  case (Cons t st)
  then show ?case by (cases t) (auto split: if_splits)
qed

lemma completion_goal: "is_goal_state g st \<Longrightarrow> completion_heuristic g st = 0"
  by (simp add: completion_heuristic_def completion_loop_goal)

lemma blocked_in_replicate: "blocked_in (replicate n c) = 0"
  by (induction n) (auto simp add: list_ex_iff)

lemma blocking_loop_goal: "is_goal_state g st \<Longrightarrow> blocking_loop st tm bu = (tm, bu)"
proof (induction st)
  case Nil
  then show ?case by simp
next
  case (Cons t st)
  show ?case
  proof (cases "t = []")
    case True
    with Cons show ?thesis by simp
  next
    case False
    with Cons.prems have c: "card (set t) = 1" and goal: "is_goal_state g st"
      by (auto split: if_splits)
    from c obtain c n where "t = replicate (Suc n) c" by (rule single_color_tube)
    then have "blocked_in t = 0" using blocked_in_replicate [of "Suc n" c] by simp
    with c False Cons.IH [OF goal] show ?thesis by simp
  qed
qed

lemma blocking_goal: "is_goal_state g st \<Longrightarrow> blocking_heuristic st = 0"
  by (simp add: blocking_heuristic_def blocking_loop_goal)

lemma completion_loop_capacity:
  "capacity g' = capacity g \<Longrightarrow> completion_loop g' st ti cp = completion_loop g st ti cp"
proof (induction st arbitrary: ti cp)
  case Nil
  then show ?case by simp
next
  case (Cons t st)
  then show ?case by (cases t) simp_all
qed

lemma move_violation_iff:
  assumes "is_valid_state g st"
  shows "move_violation g st m \<longleftrightarrow> \<not> legal g st m"
proof (cases "0 \<le> dst m \<and> dst m < int (length st)")
  case True
  then have "nat (dst m) < length st" by auto
  then have "st ! nat (dst m) \<in> set st" by simp
  with assms have "int (length (st ! nat (dst m))) \<le> capacity g"
    by (simp add: is_valid_state_iff)
  then show ?thesis
    unfolding move_violation_def legal_def by auto
next
  case False
  then show ?thesis
    unfolding move_violation_def legal_def by auto
qed

lemma sorted_wrt_irrefl_distinct:
  "sorted_wrt r xs \<Longrightarrow> (\<And>x. \<not> r x x) \<Longrightarrow> distinct xs"
  by (induction xs) auto

section \<open>The claims about the puzzle model\<close>

text \<open>
  Claim C1. In a valid state, every move that \<open>get_valid_moves\<close> returns is applied by
  \<open>apply_move\<close> without an error.
\<close>

theorem enumerated_moves_apply:
  assumes "is_valid_state g st" and "m \<in> set (get_valid_moves g st)"
  shows "\<exists>st' poured. apply_move g st m = Inr (st', poured)"
proof -
  from assms have "legal g st m" by (simp add: get_valid_moves_legal)
  then show ?thesis by (simp add: apply_move_legal)
qed

theorem enumerated_moves_apply_witness:
  "is_valid_state example_game example_state
   \<and> Move 1 0 \<in> set (get_valid_moves example_game example_state)
   \<and> (\<exists>st' poured. apply_move example_game example_state (Move 1 0) = Inr (st', poured))"
proof -
  have v: "is_valid_state example_game example_state" by code_simp
  have m: "Move 1 0 \<in> set (get_valid_moves example_game example_state)" by code_simp
  from v m enumerated_moves_apply [OF v m] show ?thesis by simp
qed

text \<open>
  Claim C4. A successful \<open>apply_move\<close> on a valid state keeps the number of units of every
  colour and yields a valid state (no tube above capacity); hence so does every sequence
  of successful moves.
\<close>

theorem moves_conserve_colors:
  assumes "is_valid_state g st"
  shows "(\<forall>m st' poured. apply_move g st m = Inr (st', poured) \<longrightarrow>
            is_valid_state g st' \<and> (\<forall>c. color_units st' c = color_units st c))
       \<and> (\<forall>ms st'. replay g st ms = Inr st' \<longrightarrow>
            is_valid_state g st' \<and> (\<forall>c. color_units st' c = color_units st c)
            \<and> (conserved g st \<longrightarrow> conserved g st'))"
proof (intro conjI allI impI)
  fix m st' poured
  assume "apply_move g st m = Inr (st', poured)"
  from apply_move_preserves [OF assms this]
  show "is_valid_state g st'" and "\<And>c. color_units st' c = color_units st c" by simp_all
next
  fix ms st'
  assume r: "replay g st ms = Inr st'"
  from replay_preserves [OF assms r]
  show "is_valid_state g st'" and u: "\<And>c. color_units st' c = color_units st c" by simp_all
  assume c: "conserved g st"
  show "conserved g st'"
    unfolding conserved_iff
  proof
    fix c assume "c \<in> set (concat st')"
    then have "1 \<le> color_units st' c" by (rule color_units_pos)
    then have "color_units st c \<noteq> 0" by (simp add: u)
    then have "c \<in> set (concat st)"
      by (auto simp add: color_units_def sum_list_eq_0_iff count_list_0_iff)
    with c have "int (color_units st c) = capacity g" unfolding conserved_iff by (rule bspec)
    then show "int (color_units st' c) = capacity g" by (simp add: u)
  qed
qed

theorem moves_conserve_colors_witness:
  "is_valid_state example_game example_state
   \<and> apply_move example_game example_state (Move 0 1)
       = Inr ([[''R''], [''G'', ''G'', ''G'', ''G''], [''R'', ''R'', ''R''], [''B'', ''B'', ''B'', ''B''], []], 2)
   \<and> is_valid_state example_game
        [[''R''], [''G'', ''G'', ''G'', ''G''], [''R'', ''R'', ''R''], [''B'', ''B'', ''B'', ''B''], []]
   \<and> (\<forall>c. color_units
          [[''R''], [''G'', ''G'', ''G'', ''G''], [''R'', ''R'', ''R''], [''B'', ''B'', ''B'', ''B''], []] c
        = color_units example_state c)
   \<and> replay example_game example_state [Move 0 1, Move 0 2]
       = Inr [[], [''G'', ''G'', ''G'', ''G''], [''R'', ''R'', ''R'', ''R''], [''B'', ''B'', ''B'', ''B''], []]
   \<and> conserved example_game example_state
   \<and> conserved example_game
        [[], [''G'', ''G'', ''G'', ''G''], [''R'', ''R'', ''R'', ''R''], [''B'', ''B'', ''B'', ''B''], []]"
proof -
  have v: "is_valid_state example_game example_state" by code_simp
  have a: "apply_move example_game example_state (Move 0 1)
       = Inr ([[''R''], [''G'', ''G'', ''G'', ''G''], [''R'', ''R'', ''R''], [''B'', ''B'', ''B'', ''B''], []], 2)"
    by code_simp
  have r: "replay example_game example_state [Move 0 1, Move 0 2]
       = Inr [[], [''G'', ''G'', ''G'', ''G''], [''R'', ''R'', ''R'', ''R''], [''B'', ''B'', ''B'', ''B''], []]" by code_simp
  have c: "conserved example_game example_state" by code_simp
  note t1 = moves_conserve_colors [OF v, THEN conjunct1, rule_format, OF a]
  note t2 = moves_conserve_colors [OF v, THEN conjunct2, rule_format, OF r]
  from t2 c have 2: "conserved example_game
        [[], [''G'', ''G'', ''G'', ''G''], [''R'', ''R'', ''R'', ''R''], [''B'', ''B'', ''B'', ''B''], []]"
    by (elim conjE impE)
  show ?thesis
    by (intro conjI) (fact v a r c 2 t1 [THEN conjunct1] t1 [THEN conjunct2])+
qed

text \<open>
  Claim C5. On a valid state \<open>apply_move\<close> raises exactly when one of the five violations
  holds (an index out of range, source equal to destination, empty source, full
  destination, or a non-empty destination whose top colour differs from the source's).
  Otherwise it returns the state in which the top run of the source, cut to the room left
  in the destination, has moved to the destination, together with the number of units
  poured, which is at least one.
\<close>

theorem apply_move_contract:
  assumes "is_valid_state g st"
  shows "((\<exists>e. apply_move g st m = Inl e) \<longleftrightarrow> move_violation g st m)
       \<and> (\<not> move_violation g st m \<longrightarrow>
            apply_move g st m = Inr (poured_state g st m, int (poured_units g st m))
            \<and> 1 \<le> poured_units g st m)"
proof (cases "legal g st m")
  case True
  with assms have "\<not> move_violation g st m" by (simp add: move_violation_iff)
  with True poured_units_pos [OF True] show ?thesis by (simp add: apply_move_legal)
next
  case False
  with assms have "move_violation g st m" by (simp add: move_violation_iff)
  with False show ?thesis by (simp add: apply_move_illegal)
qed

theorem apply_move_contract_witness:
  "is_valid_state example_game example_state
   \<and> \<not> move_violation example_game example_state (Move 0 1)
   \<and> apply_move example_game example_state (Move 0 1)
       = Inr ([[''R''], [''G'', ''G'', ''G'', ''G''], [''R'', ''R'', ''R''], [''B'', ''B'', ''B'', ''B''], []], 2)
   \<and> move_violation example_game example_state (Move 0 3)
   \<and> apply_move example_game example_state (Move 0 3) = Inl DestinationFull"
proof -
  have v: "is_valid_state example_game example_state" by code_simp
  have l: "\<not> move_violation example_game example_state (Move 0 1)" by code_simp
  have p: "poured_state example_game example_state (Move 0 1)
      = [[''R''], [''G'', ''G'', ''G'', ''G''], [''R'', ''R'', ''R''], [''B'', ''B'', ''B'', ''B''], []]"
    by code_simp
  have u: "int (poured_units example_game example_state (Move 0 1)) = 2" by code_simp
  have f: "apply_move example_game example_state (Move 0 3) = Inl DestinationFull" by code_simp
  from apply_move_contract [OF v, of "Move 0 1"] apply_move_contract [OF v, of "Move 0 3"] v l f
  show ?thesis by (simp add: p u)
qed

text \<open>
  Claim C6. On a valid state \<open>get_valid_moves\<close> returns exactly the legal moves (indices in
  range, source different from destination, source not empty, destination not full, and
  destination empty or topped by the colour of the source's top), each once, ordered by
  source index and then by destination index. No move to an empty tube is filtered out.
\<close>

theorem get_valid_moves_exact:
  assumes "is_valid_state g st"
  shows "set (get_valid_moves g st) = {m. legal g st m}
       \<and> sorted_wrt move_less (get_valid_moves g st)
       \<and> distinct (get_valid_moves g st)"
proof -
  have "distinct (get_valid_moves g st)"
    by (rule sorted_wrt_irrefl_distinct [OF get_valid_moves_sorted]) (simp add: move_less_def)
  with assms show ?thesis
    by (auto simp add: get_valid_moves_legal get_valid_moves_sorted)
qed

theorem get_valid_moves_exact_witness:
  "is_valid_state example_game example_state
   \<and> get_valid_moves example_game example_state
       = [Move 0 1, Move 0 4, Move 1 0, Move 1 4, Move 2 4, Move 3 4]
   \<and> {m. legal example_game example_state m}
       = {Move 0 1, Move 0 4, Move 1 0, Move 1 4, Move 2 4, Move 3 4}"
proof -
  have v: "is_valid_state example_game example_state" by code_simp
  have e: "get_valid_moves example_game example_state
       = [Move 0 1, Move 0 4, Move 1 0, Move 1 4, Move 2 4, Move 3 4]" by code_simp
  from get_valid_moves_exact [OF v] v e show ?thesis by simp
qed

section \<open>The claims about the heuristics\<close>

text \<open>
  Claim C9. On a valid state each of the three heuristics returns a non-negative integer.
  Each is a function of the state alone, the completion heuristic of the state and the
  capacity of the game.
\<close>

theorem heuristics_nonneg:
  assumes "is_valid_state g st"
  shows "0 \<le> entropy_heuristic st \<and> 0 \<le> completion_heuristic g st \<and> 0 \<le> blocking_heuristic st
       \<and> (\<forall>g'. capacity g' = capacity g \<longrightarrow> completion_heuristic g' st = completion_heuristic g st)"
proof -
  have "completion_heuristic g' st = completion_heuristic g st" if "capacity g' = capacity g" for g'
    unfolding completion_heuristic_def completion_loop_capacity [OF that, of st 0 0]
    by (simp add: that)
  then have "\<forall>g'. capacity g' = capacity g \<longrightarrow> completion_heuristic g' st = completion_heuristic g st"
    by blast
  moreover note entropy_nonneg [of st] completion_nonneg [OF assms] blocking_nonneg [of st]
  ultimately show ?thesis by (intro conjI)
qed

theorem heuristics_nonneg_witness:
  "is_valid_state example_game example_state
   \<and> entropy_heuristic example_state = 3
   \<and> completion_heuristic example_game example_state = 6
   \<and> blocking_heuristic example_state = 5
   \<and> completion_heuristic (example_game\<lparr>num_tubes := 6\<rparr>) example_state = 6"
proof -
  have v: "is_valid_state example_game example_state" by code_simp
  have e: "entropy_heuristic example_state = 3" by code_simp
  have c: "completion_heuristic example_game example_state = 6" by code_simp
  have b: "blocking_heuristic example_state = 5" by code_simp
  have "capacity (example_game\<lparr>num_tubes := 6\<rparr>) = capacity example_game" by simp
  with heuristics_nonneg [OF v]
  have "completion_heuristic (example_game\<lparr>num_tubes := 6\<rparr>) example_state
      = completion_heuristic example_game example_state"
    by (elim conjE) (erule allE, erule impE, assumption+)
  with v e c b show ?thesis by simp
qed

text \<open>
  Claim C10, as the code has it. On a valid goal state the completion and the blocking
  heuristic return 0. The entropy heuristic returns 0 when, in addition, every colour
  present has exactly capacity units in the state, so that no colour fills two tubes.
  Validity and the goal test alone do not exclude two full tubes of one colour, for which
  the entropy heuristic is positive.
\<close>

theorem entropy_goal_counterexample:
  "is_valid_state example_game twin_state \<and> is_goal_state example_game twin_state
   \<and> entropy_heuristic twin_state = 4"
  by code_simp

theorem heuristics_goal_zero:
  assumes "is_valid_state g st" and "is_goal_state g st"
  shows "completion_heuristic g st = 0 \<and> blocking_heuristic st = 0
       \<and> (conserved g st \<longrightarrow> entropy_heuristic st = 0)"
  using assms by (simp add: completion_goal blocking_goal entropy_goal)

theorem heuristics_goal_zero_witness:
  "is_valid_state example_game solved_state \<and> is_goal_state example_game solved_state
   \<and> conserved example_game solved_state
   \<and> completion_heuristic example_game solved_state = 0
   \<and> blocking_heuristic solved_state = 0
   \<and> entropy_heuristic solved_state = 0"
proof -
  have v: "is_valid_state example_game solved_state" by code_simp
  have g: "is_goal_state example_game solved_state" by code_simp
  have c: "conserved example_game solved_state" by code_simp
  from heuristics_goal_zero [OF v g] v g c show ?thesis by simp
qed

end
